theory Spec2Isabelle
  imports Main "HOL-Library.Word"
begin

unbundle bit_operations_syntax

section \<open>CRC-32 table generation (tools/gen\_crc32\_table.c)\<close>

type_synonym u8 = "8 word"
type_synonym u32 = "32 word"

subsection \<open>The bit and byte steps\<close>

text \<open>
  \<^verbatim>\<open>crc32_update_bit\<close>: one cycle of the reflected shift register. The C expression
  \<^verbatim>\<open>remainder ^ next_bit\<close> widens the 8-bit argument to 32 bits before the XOR, and only
  bit 0 of the result selects the polynomial.
\<close>

definition crc32_update_bit :: "u32 \<Rightarrow> u8 \<Rightarrow> u32" where
  "crc32_update_bit remainder next_bit =
     drop_bit 1 remainder XOR
       (if (remainder XOR ucast next_bit) AND 1 \<noteq> 0 then 0xEDB88320 else 0)"

text \<open>
  The loop of \<^verbatim>\<open>crc32_update_byte\<close>: \<^verbatim>\<open>for (j = 0; j < 8; j++, next_byte >>= 1)\<close>,
  with the loop counter \<open>j\<close>, the remainder and the shrinking byte as its state.
\<close>

function crc32_update_byte_loop :: "nat \<Rightarrow> u32 \<Rightarrow> u8 \<Rightarrow> u32" where
  "crc32_update_byte_loop j remainder next_byte =
     (if j < 8
      then crc32_update_byte_loop (j + 1)
             (crc32_update_bit remainder (next_byte AND 1)) (drop_bit 1 next_byte)
      else remainder)"
  by pat_completeness auto
termination
  by (relation "measure (\<lambda>(j, remainder, next_byte). 8 - j)") auto

declare crc32_update_byte_loop.simps [simp del]

definition crc32_update_byte :: "u32 \<Rightarrow> u8 \<Rightarrow> u32" where
  "crc32_update_byte remainder next_byte = crc32_update_byte_loop 0 remainder next_byte"

subsection \<open>The tables built by \<^verbatim>\<open>main\<close>\<close>

text \<open>
  The two static arrays start zero-filled. The first loop of \<^verbatim>\<open>main\<close> stores
  \<^verbatim>\<open>crc32_update_byte(0, i)\<close> at \<open>i < 0x100\<close>; the \<^verbatim>\<open>int\<close> counter is narrowed to the
  8-bit parameter.
\<close>

function fill_base :: "nat \<Rightarrow> u32 list \<Rightarrow> u32 list" where
  "fill_base i tab =
     (if i < 0x100
      then fill_base (i + 1) (tab[i := crc32_update_byte 0 (word_of_nat i)])
      else tab)"
  by pat_completeness auto
termination
  by (relation "measure (\<lambda>(i, tab). 0x100 - i)") auto

declare fill_base.simps [simp del]

text \<open>
  The second loop, \<open>0x100 \<le> i < 0x800\<close>, reads the entry \<open>0x100\<close> places back, which
  the same loop may have written.
\<close>

function fill_slices :: "nat \<Rightarrow> u32 list \<Rightarrow> u32 list" where
  "fill_slices i tab =
     (if i < 0x800
      then fill_slices (i + 1) (tab[i := crc32_update_byte (tab ! (i - 0x100)) 0])
      else tab)"
  by pat_completeness auto
termination
  by (relation "measure (\<lambda>(i, tab). 0x800 - i)") auto

declare fill_slices.simps [simp del]

text \<open>The inner loop of the rolling table: \<^verbatim>\<open>for (j = 0; j < 16; j++)\<close>.\<close>

function rolling_zeros :: "nat \<Rightarrow> u32 \<Rightarrow> u32" where
  "rolling_zeros j remainder =
     (if j < 16 then rolling_zeros (j + 1) (crc32_update_byte remainder 0) else remainder)"
  by pat_completeness auto
termination
  by (relation "measure (\<lambda>(j, remainder). 16 - j)") auto

declare rolling_zeros.simps [simp del]

function fill_rolling :: "nat \<Rightarrow> u32 list \<Rightarrow> u32 list" where
  "fill_rolling i rolling =
     (if i < 0x100
      then fill_rolling (i + 1)
             (rolling[i := rolling_zeros 0 (crc32_update_byte 0 (word_of_nat i))])
      else rolling)"
  by pat_completeness auto
termination
  by (relation "measure (\<lambda>(i, rolling). 0x100 - i)") auto

declare fill_rolling.simps [simp del]

definition crc32_table :: "u32 list" where
  "crc32_table = fill_slices 0x100 (fill_base 0 (replicate 0x800 0))"

definition crc32_rolling :: "u32 list" where
  "crc32_rolling = fill_rolling 0 (replicate 0x100 0)"

subsection \<open>Checksums of byte sequences\<close>

text \<open>
  The CRC-32 of a byte sequence, in the sense of the comments of \<^verbatim>\<open>main\<close> (the
  CRC-32 of byte \<open>i\<close> followed by some zero bytes): \<^verbatim>\<open>crc32_update_byte\<close> applied to the
  bytes in turn, as the loops of \<^verbatim>\<open>main\<close> apply it to a byte and then to zero bytes.
  There is no complement at the start or the end.
\<close>

definition crc32_bytewise :: "u32 \<Rightarrow> u8 list \<Rightarrow> u32" where
  "crc32_bytewise remainder data = fold (\<lambda>b r. crc32_update_byte r b) data remainder"

text \<open>Feeding \<open>n\<close> zero bytes.\<close>

fun zero_bytes :: "nat \<Rightarrow> u32 \<Rightarrow> u32" where
  "zero_bytes 0 remainder = remainder"
| "zero_bytes (Suc n) remainder = zero_bytes n (crc32_update_byte remainder 0)"

section \<open>The checksum engine\<close>

subsection \<open>The rolling computation and the duplicate-window scan\<close>

text \<open>
  Modelled from the spec: the rolling update \<^verbatim>\<open>roll(remainder, incoming_byte, outgoing_byte)\<close>
  of the checksum engine, which the source files do not hold. In the specification's words,
  \<^verbatim>\<open>remainder' = update_byte(remainder, incoming_byte) XOR rolling_table[outgoing_byte]\<close>,
  where the two bytes are byte values in \<open>[0, 256)\<close> and the table has one entry for
  each.
\<close>

definition roll :: "u32 \<Rightarrow> u8 \<Rightarrow> u8 \<Rightarrow> u32" where
  "roll remainder incoming outgoing =
     crc32_update_byte remainder incoming XOR crc32_rolling ! unat outgoing"

text \<open>
  The window of the fixed width 16 (the width for which \<^verbatim>\<open>main\<close> builds the rolling
  table) at an offset of a stream.
\<close>

definition window :: "u8 list \<Rightarrow> nat \<Rightarrow> u8 list" where
  "window str p = take 16 (drop p str)"

text \<open>
  Modelled from the spec: the comparison step of the duplicate-window scan, which the
  source files do not hold. After a window update the current value is compared with the
  values observed at earlier offsets, and every equal one gives a candidate pair
  \<open>(offset_a, offset_b)\<close>. \<open>seen\<close> holds the values observed at the offsets \<open>a\<close>,
  \<open>a + 1\<close>, ..., and \<open>p\<close> is the offset of the current window.
\<close>

fun candidates :: "u32 list \<Rightarrow> nat \<Rightarrow> u32 \<Rightarrow> nat \<Rightarrow> (nat \<times> nat) list" where
  "candidates [] a remainder p = []"
| "candidates (h # seen) a remainder p =
     (if h = remainder then [(a, p)] else []) @ candidates seen (a + 1) remainder p"

text \<open>
  Modelled from the spec: the duplicate-window scan once the first window is full. For
  each further byte consumed, the window record (the checksum and the position \<open>p\<close>) is
  updated with \<open>roll\<close>, the new value is compared with those observed at the earlier
  offsets, and it is recorded. \<open>outs\<close> is the stream from the first byte of the current
  window on and \<open>incs\<close> the stream after its last byte; the scan ends with the input.
\<close>

fun scan_windows :: "u8 list \<Rightarrow> u8 list \<Rightarrow> nat \<Rightarrow> u32 \<Rightarrow> u32 list \<Rightarrow> (nat \<times> nat) list" where
  "scan_windows (outgoing # outs) (incoming # incs) p remainder seen =
     (let remainder' = roll remainder incoming outgoing
      in candidates seen 0 remainder' (p + 1) @
         scan_windows outs incs (p + 1) remainder' (seen @ [remainder']))"
| "scan_windows outs incs p remainder seen = []"

text \<open>
  Modelled from the spec: the duplicate-window scan of a byte stream. The window record
  is created when the window first reaches the full width 16, with the checksum of the
  first 16 bytes computed from remainder 0; a shorter stream has no window and no
  candidates.
\<close>

definition scan :: "u8 list \<Rightarrow> (nat \<times> nat) list" where
  "scan str =
     (if length str < 16 then []
      else let remainder = crc32_bytewise 0 (window str 0)
           in scan_windows str (drop 16 str) 0 remainder [remainder])"

text \<open>
  The stream of the specification's scenario: sixteen \<open>A\<close>, sixteen \<open>B\<close>, sixteen \<open>A\<close>.
\<close>

definition stream_ABA :: "u8 list" where
  "stream_ABA = replicate 16 0x41 @ replicate 16 0x42 @ replicate 16 0x41"

subsection \<open>The batched computation\<close>

text \<open>
  Modelled from the spec: one table lookup of the slice-by-\<open>N\<close> computation of the
  checksum engine. The engine is not among the source files at hand; only the table it
  reads is built there. For a group of \<open>N\<close> bytes the specification combines the XOR over
  \<open>k < N\<close> of table group \<open>N-1-k\<close> at the \<open>k\<close>-th byte with the previous remainder as it
  is shifted out: here byte \<open>k\<close> of the previous remainder is XORed onto the \<open>k\<close>-th data
  byte before the lookup.
\<close>

definition slice_lookup :: "nat \<Rightarrow> u32 \<Rightarrow> u8 list \<Rightarrow> nat \<Rightarrow> u32" where
  "slice_lookup N remainder ds k =
     crc32_table ! ((N - 1 - k) * 0x100 + unat (ucast (drop_bit (8 * k) remainder) XOR ds ! k))"

text \<open>
  Modelled from the spec: the new remainder after a group of \<open>N\<close> bytes, the XOR of the
  \<open>N\<close> lookups and of what is left of the previous remainder after \<open>8 * N\<close> shifts
  (nothing, from \<open>N = 4\<close> on).
\<close>

definition slice_group :: "nat \<Rightarrow> u32 \<Rightarrow> u8 list \<Rightarrow> u32" where
  "slice_group N remainder ds =
     fold (\<lambda>k acc. acc XOR slice_lookup N remainder ds k) [0..<N] (drop_bit (8 * N) remainder)"

text \<open>
  Modelled from the spec: the batched computation, which takes as many full groups of
  \<open>N\<close> bytes as fit and then the bytes left over one at a time.
\<close>

function crc32_slice :: "nat \<Rightarrow> u32 \<Rightarrow> u8 list \<Rightarrow> u32" where
  "crc32_slice N remainder data =
     (if 0 < N \<and> N \<le> length data
      then crc32_slice N (slice_group N remainder (take N data)) (drop N data)
      else crc32_bytewise remainder data)"
  by pat_completeness auto
termination
  by (relation "measure (\<lambda>(N, remainder, data). length data)") auto

declare crc32_slice.simps [simp del]

text \<open>Modelled from the spec: the engine's slice-by-4 strategy, over table groups 0 to 3.\<close>

definition crc32_slice4 :: "u32 \<Rightarrow> u8 list \<Rightarrow> u32" where
  "crc32_slice4 = crc32_slice 4"

text \<open>Modelled from the spec: the engine's slice-by-8 strategy, over table groups 0 to 7.\<close>

definition crc32_slice8 :: "u32 \<Rightarrow> u8 list \<Rightarrow> u32" where
  "crc32_slice8 = crc32_slice 8"

section \<open>Parsing the compression level (programs/prog\_util.c)\<close>

text \<open>
  Characters are their codes (\<^verbatim>\<open>tchar\<close> is \<^verbatim>\<open>char\<close> or \<^verbatim>\<open>wchar_t\<close>), a string is the list
  of its characters before the terminator, and \<^verbatim>\<open>NULL\<close> is \<open>None\<close>. \<^verbatim>\<open>level\<close> is an
  \<^verbatim>\<open>unsigned long\<close>: a number below \<open>2 ^ w\<close>, where \<open>w\<close> is the width of that type on the
  platform, and every assignment to it is taken modulo \<open>2 ^ w\<close>.
\<close>

datatype message = Invalid_compression_level int "int list"

text \<open>
  The loop \<^verbatim>\<open>for (p = arg; *p >= '0' && *p <= '9'; p++) level = (level * 10) + (*p - '0')\<close>;
  it returns \<^verbatim>\<open>level\<close> and the rest of the string at \<^verbatim>\<open>p\<close>.
\<close>

fun parse_digits :: "nat \<Rightarrow> nat \<Rightarrow> int list \<Rightarrow> nat \<times> int list" where
  "parse_digits w level [] = (level, [])"
| "parse_digits w level (c # p) =
     (if 48 \<le> c \<and> c \<le> 57
      then parse_digits w ((level * 10 + nat (c - 48)) mod 2 ^ w) p
      else (level, c # p))"

text \<open>\<^verbatim>\<open>*p\<close>: the character at \<^verbatim>\<open>p\<close>, the terminator at the end of the string.\<close>

definition deref :: "int list \<Rightarrow> int" where
  "deref p = (case p of [] \<Rightarrow> 0 | c # _ \<Rightarrow> c)"

text \<open>
  \<^verbatim>\<open>parse_compression_level\<close> returns the value of the C function together with what
  it printed through \<^verbatim>\<open>msg\<close>.
\<close>

definition parse_compression_level :: "nat \<Rightarrow> int \<Rightarrow> int list option \<Rightarrow> int \<times> message list" where
  "parse_compression_level w opt_char arg0 =
     (let level0 = nat ((opt_char - 48) mod 2 ^ w);
          arg = (case arg0 of None \<Rightarrow> [] | Some a \<Rightarrow> a);
          (level, p) = parse_digits w level0 arg
      in if level < 1 \<or> level > 12 \<or> deref p \<noteq> 0
         then (0, [Invalid_compression_level opt_char arg])
         else (int level, []))"

section \<open>Properties of the table generator\<close>

subsection \<open>Linearity of the bit and byte steps\<close>

lemma and_one_neq_0_iff: "((w::u32) AND 1 \<noteq> 0) = odd w"
  by (simp add: and_one_eq mod_2_eq_odd)

lemma odd_ucast_u8: "odd (ucast (b::u8) :: u32) = odd b"
  by (simp add: bit_ucast_iff flip: bit_0)

lemma crc32_update_bit_odd:
  "crc32_update_bit r b = drop_bit 1 r XOR (if odd r \<noteq> odd b then 0xEDB88320 else 0)"
  by (simp add: crc32_update_bit_def and_one_neq_0_iff odd_ucast_u8 even_xor_iff)

lemma crc32_update_bit_xor:
  "crc32_update_bit (r1 XOR r2) (b1 XOR b2) = crc32_update_bit r1 b1 XOR crc32_update_bit r2 b2"
  by (auto simp add: crc32_update_bit_odd even_xor_iff xor.assoc xor.left_commute)

lemma crc32_update_byte_loop_xor:
  "crc32_update_byte_loop j (r1 XOR r2) (b1 XOR b2) =
     crc32_update_byte_loop j r1 b1 XOR crc32_update_byte_loop j r2 b2"
proof (induction j r1 b1 arbitrary: r2 b2 rule: crc32_update_byte_loop.induct)
  case (1 j r1 b1)
  show ?case
  proof (cases "j < 8")
    case True
    have "crc32_update_byte_loop j (r1 XOR r2) (b1 XOR b2) =
          crc32_update_byte_loop (j + 1)
            (crc32_update_bit r1 (b1 AND 1) XOR crc32_update_bit r2 (b2 AND 1))
            (drop_bit 1 b1 XOR drop_bit 1 b2)"
      using True
      by (subst crc32_update_byte_loop.simps)
         (simp add: crc32_update_bit_xor [symmetric] drop_bit_xor bit.conj_xor_distrib2)
    also have "\<dots> = crc32_update_byte_loop (j + 1) (crc32_update_bit r1 (b1 AND 1)) (drop_bit 1 b1)
                 XOR crc32_update_byte_loop (j + 1) (crc32_update_bit r2 (b2 AND 1)) (drop_bit 1 b2)"
      using True by (rule "1.IH")
    also have "\<dots> = crc32_update_byte_loop j r1 b1 XOR crc32_update_byte_loop j r2 b2"
      using True by (simp add: crc32_update_byte_loop.simps [of j])
    finally show ?thesis .
  next
    case False
    then show ?thesis by (simp add: crc32_update_byte_loop.simps)
  qed
qed

lemma crc32_update_byte_xor:
  "crc32_update_byte (r1 XOR r2) (b1 XOR b2) = crc32_update_byte r1 b1 XOR crc32_update_byte r2 b2"
  by (simp add: crc32_update_byte_def crc32_update_byte_loop_xor)

lemma crc32_update_byte_0_0: "crc32_update_byte 0 0 = 0"
  using crc32_update_byte_xor [of 0 0 0 0] by simp

subsection \<open>What the loops of \<^verbatim>\<open>main\<close> leave in the tables\<close>

lemma length_fill_base: "length (fill_base i tab) = length tab"
  by (induction i tab rule: fill_base.induct) (subst fill_base.simps, simp)

lemma fill_base_nth:
  "n < length tab \<Longrightarrow>
   fill_base i tab ! n =
     (if i \<le> n \<and> n < 0x100 then crc32_update_byte 0 (word_of_nat n) else tab ! n)"
proof (induction i tab rule: fill_base.induct)
  case (1 i tab)
  show ?case
  proof (cases "i < 0x100")
    case True
    with 1 show ?thesis
      by (subst fill_base.simps) (cases "n = i", auto simp add: nth_list_update)
  next
    case False
    then show ?thesis by (subst fill_base.simps) auto
  qed
qed

lemma length_fill_slices: "length (fill_slices i tab) = length tab"
  by (induction i tab rule: fill_slices.induct) (subst fill_slices.simps, simp)

lemma fill_slices_below: "n < i \<Longrightarrow> fill_slices i tab ! n = tab ! n"
proof (induction i tab rule: fill_slices.induct)
  case (1 i tab)
  show ?case
  proof (cases "i < 0x800")
    case True
    with 1 show ?thesis
      by (subst fill_slices.simps) (simp add: nth_list_update)
  next
    case False
    then show ?thesis by (subst fill_slices.simps) simp
  qed
qed

lemma fill_slices_above:
  "length tab = 0x800 \<Longrightarrow> 0x100 \<le> i \<Longrightarrow> i \<le> n \<Longrightarrow> n < 0x800 \<Longrightarrow>
   fill_slices i tab ! n = crc32_update_byte (fill_slices i tab ! (n - 0x100)) 0"
proof (induction i tab rule: fill_slices.induct)
  case (1 i tab)
  from 1(4,5) have lt: "i < 0x800" by simp
  let ?tab' = "tab[i := crc32_update_byte (tab ! (i - 0x100)) 0]"
  have unfold: "fill_slices i tab = fill_slices (i + 1) ?tab'"
    using lt by (subst fill_slices.simps) simp
  show ?case
  proof (cases "n = i")
    case True
    have "fill_slices (i + 1) ?tab' ! i = ?tab' ! i"
      by (rule fill_slices_below) simp
    moreover have "fill_slices (i + 1) ?tab' ! (i - 0x100) = ?tab' ! (i - 0x100)"
      by (rule fill_slices_below) simp
    moreover have "?tab' ! (i - 0x100) = tab ! (i - 0x100)"
      using 1(3) by simp
    ultimately show ?thesis
      using True lt 1(2) by (simp add: unfold)
  next
    case False
    with 1(4) have "i + 1 \<le> n" by simp
    with 1(1) [OF lt] 1(2,3,5) show ?thesis
      by (simp add: unfold)
  qed
qed

lemma length_crc32_table: "length crc32_table = 0x800"
  by (simp add: crc32_table_def length_fill_slices length_fill_base)

lemma crc32_table_base:
  "i < 0x100 \<Longrightarrow> crc32_table ! i = crc32_update_byte 0 (word_of_nat i)"
  by (simp add: crc32_table_def fill_slices_below fill_base_nth)

lemma crc32_table_step:
  "0x100 \<le> n \<Longrightarrow> n < 0x800 \<Longrightarrow>
   crc32_table ! n = crc32_update_byte (crc32_table ! (n - 0x100)) 0"
  unfolding crc32_table_def
  by (rule fill_slices_above) (simp_all add: length_fill_base)

lemma zero_bytes_step: "zero_bytes n (crc32_update_byte r 0) = crc32_update_byte (zero_bytes n r) 0"
  by (induction n arbitrary: r) simp_all

lemma zero_bytes_add: "zero_bytes (m + n) r = zero_bytes n (zero_bytes m r)"
  by (induction m arbitrary: r) simp_all

lemma crc32_table_group:
  "k < 8 \<Longrightarrow> i < 0x100 \<Longrightarrow>
   crc32_table ! (k * 0x100 + i) = zero_bytes k (crc32_update_byte 0 (word_of_nat i))"
proof (induction k)
  case 0
  then show ?case by (simp add: crc32_table_base)
next
  case (Suc k)
  then have "crc32_table ! (Suc k * 0x100 + i) =
             crc32_update_byte (crc32_table ! (Suc k * 0x100 + i - 0x100)) 0"
    by (intro crc32_table_step) simp_all
  with Suc show ?case by (simp add: zero_bytes_step)
qed

lemma rolling_zeros_eq: "j \<le> 16 \<Longrightarrow> rolling_zeros j r = zero_bytes (16 - j) r"
proof (induction j r rule: rolling_zeros.induct)
  case (1 j r)
  show ?case
  proof (cases "j < 16")
    case True
    then have "16 - j = Suc (16 - (j + 1))" by simp
    with True 1 show ?thesis
      by (subst rolling_zeros.simps) simp
  next
    case False
    with 1(2) show ?thesis
      by (subst rolling_zeros.simps) simp
  qed
qed

lemma length_fill_rolling: "length (fill_rolling i tab) = length tab"
  by (induction i tab rule: fill_rolling.induct) (subst fill_rolling.simps, simp)

lemma fill_rolling_nth:
  "n < length tab \<Longrightarrow>
   fill_rolling i tab ! n =
     (if i \<le> n \<and> n < 0x100
      then rolling_zeros 0 (crc32_update_byte 0 (word_of_nat n)) else tab ! n)"
proof (induction i tab rule: fill_rolling.induct)
  case (1 i tab)
  show ?case
  proof (cases "i < 0x100")
    case True
    with 1 show ?thesis
      by (subst fill_rolling.simps) (cases "n = i", auto simp add: nth_list_update)
  next
    case False
    then show ?thesis by (subst fill_rolling.simps) auto
  qed
qed

lemma crc32_rolling_nth:
  "i < 0x100 \<Longrightarrow> crc32_rolling ! i = zero_bytes 16 (crc32_update_byte 0 (word_of_nat i))"
  by (simp add: crc32_rolling_def fill_rolling_nth rolling_zeros_eq)

lemma zero_bytes_numeral:
  "zero_bytes (numeral n) r = zero_bytes (pred_numeral n) (crc32_update_byte r 0)"
  by (simp add: numeral_eq_Suc)

lemmas crc32_eval =
  crc32_update_byte_def crc32_update_byte_loop.simps crc32_update_bit_def zero_bytes_numeral

lemma zero_bytes_0: "zero_bytes n 0 = 0"
  by (induction n) (simp_all add: crc32_update_byte_0_0)

lemma zero_bytes_xor: "zero_bytes n (a XOR b) = zero_bytes n a XOR zero_bytes n b"
proof (induction n arbitrary: a b)
  case 0
  show ?case by simp
next
  case (Suc n)
  have "crc32_update_byte (a XOR b) 0 = crc32_update_byte a 0 XOR crc32_update_byte b 0"
    using crc32_update_byte_xor [of a b 0 0] by simp
  with Suc show ?case by simp
qed

lemma crc32_update_byte_split:
  "crc32_update_byte r b = crc32_update_byte r 0 XOR crc32_update_byte 0 b"
  using crc32_update_byte_xor [of r 0 0 b] by simp

lemma crc32_bytewise_Cons:
  "crc32_bytewise r (x # xs) = crc32_bytewise (crc32_update_byte r x) xs"
  by (simp add: crc32_bytewise_def)

lemma crc32_bytewise_zeros: "crc32_bytewise r (replicate n 0) = zero_bytes n r"
  by (induction n arbitrary: r) (simp_all add: crc32_bytewise_def)

lemma crc32_bytewise_append:
  "crc32_bytewise r (xs @ ys) = crc32_bytewise (crc32_bytewise r xs) ys"
  by (simp add: crc32_bytewise_def)

lemma crc32_bytewise_xor:
  "crc32_bytewise (r1 XOR r2) xs = zero_bytes (length xs) r1 XOR crc32_bytewise r2 xs"
proof (induction xs arbitrary: r1 r2)
  case Nil
  show ?case by (simp add: crc32_bytewise_def)
next
  case (Cons x xs)
  have "crc32_update_byte (r1 XOR r2) x = crc32_update_byte r1 0 XOR crc32_update_byte r2 x"
    using crc32_update_byte_xor [of r1 r2 0 x] by simp
  with Cons show ?case by (simp add: crc32_bytewise_Cons)
qed

lemma crc32_bytewise_from:
  "crc32_bytewise r xs = zero_bytes (length xs) r XOR crc32_bytewise 0 xs"
  using crc32_bytewise_xor [of r 0 xs] by simp

lemma roll_window:
  "length rest = 15 \<Longrightarrow>
   roll (crc32_bytewise 0 (out # rest)) inc out = crc32_bytewise 0 (rest @ [inc])"
proof -
  assume len: "length rest = 15"
  have "unat out < 0x100" using unsigned_less [of out, where 'a = nat] by simp
  then have tab: "crc32_rolling ! unat out = zero_bytes 16 (crc32_update_byte 0 out)"
    by (simp add: crc32_rolling_nth)
  have "crc32_update_byte (crc32_bytewise 0 (out # rest)) inc =
        crc32_bytewise (crc32_update_byte 0 out) (rest @ [inc])"
    by (simp add: crc32_bytewise_def)
  also have "\<dots> = zero_bytes 16 (crc32_update_byte 0 out) XOR crc32_bytewise 0 (rest @ [inc])"
    using len by (subst crc32_bytewise_from) simp
  finally show ?thesis
    by (simp add: roll_def tab xor.commute xor.left_commute)
qed

subsection \<open>The byte step\<close>

text \<open>
  C5. \<^verbatim>\<open>crc32_update_byte(0, 0)\<close> is 0, and with a zero input byte the byte step is
  linear over XOR in the remainder: the step of \<open>a XOR b\<close> is the XOR of the steps of
  \<open>a\<close> and of \<open>b\<close>, for all 32-bit \<open>a\<close> and \<open>b\<close>.
\<close>

theorem update_byte_zero_linear:
  "crc32_update_byte 0 0 = 0 \<and>
   crc32_update_byte (a XOR b) 0 = crc32_update_byte a 0 XOR crc32_update_byte b 0"
  using crc32_update_byte_xor [of a b 0 0] by (simp add: crc32_update_byte_0_0)

text \<open>
  C8. The byte step separates the remainder from the input byte: for every remainder \<open>r\<close>
  and byte \<open>b\<close>, the step of \<open>r\<close> with \<open>b\<close> is the XOR of the step of \<open>r\<close> with a zero
  byte and the step of remainder 0 with \<open>b\<close>.
\<close>

theorem update_byte_separates:
  "crc32_update_byte r b = crc32_update_byte r 0 XOR crc32_update_byte 0 b"
  by (rule crc32_update_byte_split)

subsection \<open>The generated tables\<close>

text \<open>
  C6. For every byte value \<open>i < 256\<close> the base table holds \<^verbatim>\<open>crc32_update_byte(0, i)\<close>
  at \<open>i\<close>, and entry 0 is 0.
\<close>

theorem base_table_entry:
  "i < 0x100 \<Longrightarrow> crc32_table ! i = crc32_update_byte 0 (word_of_nat i) \<and> crc32_table ! 0 = 0"
  by (simp add: crc32_table_base crc32_update_byte_0_0)

theorem base_table_entry_witness:
  "(1::nat) < 0x100 \<and> crc32_table ! 1 = 0x77073096 \<and> crc32_table ! 0 = 0"
proof -
  have "crc32_update_byte 0 1 = 0x77073096" by (simp add: crc32_eval)
  with base_table_entry [of 1] show ?thesis by simp
qed

text \<open>
  C4. For every group \<open>1 \<le> k < 8\<close> and byte value \<open>i < 256\<close>, entry \<open>k * 0x100 + i\<close> of
  the table is the CRC-32 of byte \<open>i\<close> followed by \<open>k\<close> zero bytes, which is the zero-byte
  step applied \<open>k\<close> times to entry \<open>i\<close>.
\<close>

theorem slice_table_entry:
  "1 \<le> k \<Longrightarrow> k < 8 \<Longrightarrow> i < 0x100 \<Longrightarrow>
   crc32_table ! (k * 0x100 + i) = crc32_bytewise 0 (word_of_nat i # replicate k 0) \<and>
   crc32_table ! (k * 0x100 + i) = zero_bytes k (crc32_table ! i)"
  by (simp add: crc32_table_group crc32_table_base crc32_bytewise_Cons crc32_bytewise_zeros)

theorem slice_table_entry_witness:
  "(1::nat) \<le> 2 \<and> (2::nat) < 8 \<and> (1::nat) < 0x100 \<and>
   crc32_table ! (2 * 0x100 + 1) = crc32_bytewise 0 (word_of_nat 1 # replicate 2 0) \<and>
   crc32_table ! (2 * 0x100 + 1) = zero_bytes 2 (crc32_table ! 1)"
proof -
  have h: "(1::nat) \<le> 2" "(2::nat) < 8" "(1::nat) < 0x100" by simp_all
  from slice_table_entry [OF h] h show ?thesis by blast
qed

text \<open>
  C9. Entry 0 of every table is zero: \<open>crc32_table[k * 0x100] = 0\<close> for every group
  \<open>k < 8\<close>, and \<open>crc32_rolling[0] = 0\<close>.
\<close>

theorem zero_entries:
  "(k < 8 \<longrightarrow> crc32_table ! (k * 0x100) = 0) \<and> crc32_rolling ! 0 = 0"
  using crc32_table_group [of k 0] crc32_rolling_nth [of 0]
  by (simp add: crc32_update_byte_0_0 zero_bytes_0)

theorem zero_entries_witness:
  "(7::nat) < 8 \<and> crc32_table ! 0x700 = 0 \<and> crc32_rolling ! 0 = 0"
  using zero_entries [of 7] by simp

text \<open>
  C3, as stated: entry \<open>i\<close> of the rolling table is \<^verbatim>\<open>crc32_update_byte(0, i)\<close> followed
  by 15 zero-byte steps. The loop of \<^verbatim>\<open>main\<close> runs 16 times, and at \<open>i = 1\<close> the two
  values differ.
\<close>

theorem rolling_table_15_counterexample:
  "crc32_rolling ! 1 \<noteq> zero_bytes 15 (crc32_update_byte 0 1)"
proof -
  have "zero_bytes 16 (crc32_update_byte 0 1) = 0x87A6CB43" by (simp add: crc32_eval)
  moreover have "zero_bytes 15 (crc32_update_byte 0 1) = 0xAE689191" by (simp add: crc32_eval)
  ultimately show ?thesis
    using crc32_rolling_nth [of 1] by simp
qed

text \<open>
  C3, amended: for every byte value \<open>i < 256\<close>, entry \<open>i\<close> of the rolling table is
  \<^verbatim>\<open>crc32_update_byte(0, i)\<close> followed by exactly 16 zero-byte steps, that is the CRC-32
  of byte \<open>i\<close> followed by 16 zero bytes, as many as the window is wide.
\<close>

theorem rolling_table_entry:
  "i < 0x100 \<Longrightarrow>
   crc32_rolling ! i = zero_bytes 16 (crc32_update_byte 0 (word_of_nat i)) \<and>
   crc32_rolling ! i = crc32_bytewise 0 (word_of_nat i # replicate 16 0)"
  by (simp add: crc32_rolling_nth crc32_bytewise_Cons crc32_bytewise_zeros)

theorem rolling_table_entry_witness:
  "(1::nat) < 0x100 \<and> crc32_rolling ! 1 = 0x87A6CB43 \<and>
   crc32_bytewise 0 (1 # replicate 16 0) = 0x87A6CB43"
proof -
  have h: "(1::nat) < 0x100" by simp
  have e: "zero_bytes 16 (crc32_update_byte 0 (word_of_nat 1)) = 0x87A6CB43"
    by (simp add: crc32_eval)
  have w: "word_of_nat 1 = (1::u8)" by simp
  from rolling_table_entry [OF h] have
    r1: "crc32_rolling ! 1 = zero_bytes 16 (crc32_update_byte 0 (word_of_nat 1))" and
    r2: "crc32_rolling ! 1 = crc32_bytewise 0 (word_of_nat 1 # replicate 16 0)"
    by blast+
  from r1 e have 1: "crc32_rolling ! 1 = 0x87A6CB43" by (rule trans)
  from r2 [symmetric] 1 have "crc32_bytewise 0 (word_of_nat 1 # replicate 16 0) = 0x87A6CB43"
    by (rule trans)
  then have 2: "crc32_bytewise 0 (1 # replicate 16 0) = 0x87A6CB43" by (simp only: w)
  from h 1 2 show ?thesis by blast
qed

section \<open>Properties of the rolling computation\<close>

lemma crc32_bytewise_Nil: "crc32_bytewise r [] = r"
  by (simp add: crc32_bytewise_def)

lemma sixteen_bytes: "replicate 16 x = [x, x, x, x, x, x, x, x, x, x, x, x, x, x, x, x]"
  by (simp add: numeral_eq_Suc)

text \<open>
  C1. For every window of 16 bytes and every incoming byte, the rolling update of the
  window's checksum with the incoming byte and the window's first byte (the outgoing one)
  is the checksum of the next window computed from remainder 0: the old window without
  its first byte, followed by the incoming byte.
\<close>

theorem roll_equals_recomputation:
  "length ws = 16 \<Longrightarrow>
   roll (crc32_bytewise 0 ws) incoming (hd ws) = crc32_bytewise 0 (tl ws @ [incoming])"
proof -
  assume "length ws = 16"
  then obtain out rest where "ws = out # rest" "length rest = 15"
    by (cases ws) simp_all
  then show ?thesis by (simp add: roll_window)
qed

theorem roll_equals_recomputation_witness:
  "length (replicate 16 (0x41::u8)) = 16 \<and>
   crc32_bytewise 0 (replicate 16 0x41) = 0x57BF1C5E \<and>
   roll 0x57BF1C5E 0x42 0x41 = 0xCEB64DE4 \<and>
   crc32_bytewise 0 (tl (replicate 16 0x41) @ [0x42]) = 0xCEB64DE4"
proof -
  have h: "length (replicate 16 (0x41::u8)) = 16" by simp
  have old: "crc32_bytewise 0 (replicate 16 0x41) = 0x57BF1C5E"
    unfolding sixteen_bytes
    by (simp add: crc32_bytewise_Nil crc32_bytewise_Cons crc32_eval)
  have new: "crc32_bytewise 0 (tl (replicate 16 0x41) @ [0x42]) = 0xCEB64DE4"
    unfolding sixteen_bytes
    by (simp add: crc32_bytewise_Nil crc32_bytewise_Cons crc32_eval)
  have "hd (replicate 16 (0x41::u8)) = 0x41" by simp
  with roll_equals_recomputation [OF h, of "0x42"] old new
  have "roll 0x57BF1C5E 0x42 0x41 = 0xCEB64DE4" by simp
  with h old new show ?thesis by blast
qed

section \<open>Properties of the batched computation\<close>

subsection \<open>The byte step as a shift and a table lookup\<close>

lemma loop_high:
  "k \<le> 8 \<Longrightarrow> take_bit k h = 0 \<Longrightarrow> crc32_update_byte_loop (8 - k) h 0 = drop_bit k h"
proof (induction k arbitrary: h)
  case 0
  then show ?case by (simp add: crc32_update_byte_loop.simps)
next
  case (Suc k)
  from Suc.prems have even: "even h"
    using even_take_bit_eq [of "Suc k" h] by simp
  have tb: "take_bit k (drop_bit 1 h) = 0"
    using Suc.prems by (simp add: take_bit_drop_bit)
  have j: "8 - Suc k < 8" "8 - Suc k + 1 = 8 - k" using Suc.prems by simp_all
  have "crc32_update_byte_loop (8 - Suc k) h 0 = crc32_update_byte_loop (8 - k) (drop_bit 1 h) 0"
    using j even by (subst crc32_update_byte_loop.simps) (simp add: crc32_update_bit_odd)
  also have "\<dots> = drop_bit k (drop_bit 1 h)"
    using Suc.prems tb by (intro Suc.IH) simp_all
  finally show ?case by (simp add: drop_bit_drop_bit)
qed

lemma split_word: "(r::u32) = push_bit 8 (drop_bit 8 r) XOR ucast (ucast r :: u8)"
  by (rule bit_eqI) (auto simp add: bit_simps)

lemma loop_low:
  "k \<le> 8 \<Longrightarrow> drop_bit k b = 0 \<Longrightarrow>
   crc32_update_byte_loop (8 - k) (ucast b) 0 = crc32_update_byte_loop (8 - k) 0 b"
proof (induction k arbitrary: b)
  case 0
  then show ?case by (simp add: crc32_update_byte_loop.simps)
next
  case (Suc k)
  let ?F = "(if odd b then 0xEDB88320 else 0) :: u32"
  have j: "8 - Suc k < 8" "8 - Suc k + 1 = 8 - k" using Suc.prems by simp_all
  have db: "drop_bit k (drop_bit 1 b) = 0"
    using Suc.prems by (simp add: drop_bit_drop_bit)
  have ih: "crc32_update_byte_loop (8 - k) (ucast (drop_bit 1 b)) 0 =
            crc32_update_byte_loop (8 - k) 0 (drop_bit 1 b)"
    using Suc.prems db by (intro Suc.IH) simp_all
  have "crc32_update_byte_loop (8 - Suc k) (ucast b) 0 =
        crc32_update_byte_loop (8 - k) (ucast (drop_bit 1 b) XOR ?F) (0 XOR 0)"
    using j by (subst crc32_update_byte_loop.simps)
      (simp add: crc32_update_bit_odd odd_ucast_u8 ucast_drop_bit_eq)
  also have "\<dots> = crc32_update_byte_loop (8 - k) (ucast (drop_bit 1 b)) 0 XOR
                   crc32_update_byte_loop (8 - k) ?F 0"
    by (rule crc32_update_byte_loop_xor)
  also have "\<dots> = crc32_update_byte_loop (8 - k) ?F 0 XOR
                   crc32_update_byte_loop (8 - k) 0 (drop_bit 1 b)"
    by (simp only: ih xor.commute)
  also have "\<dots> = crc32_update_byte_loop (8 - k) (?F XOR 0) (0 XOR drop_bit 1 b)"
    by (rule crc32_update_byte_loop_xor [symmetric])
  also have "\<dots> = crc32_update_byte_loop (8 - Suc k) 0 b"
    using j by (subst (2) crc32_update_byte_loop.simps)
      (simp add: crc32_update_bit_odd and_one_eq mod_2_eq_odd)
  finally show ?case .
qed

lemma crc32_update_byte_shift:
  "crc32_update_byte r 0 = drop_bit 8 r XOR crc32_update_byte 0 (ucast r)"
proof -
  let ?hi = "push_bit 8 (drop_bit 8 r) :: u32"
  let ?lo = "ucast (ucast r :: u8) :: u32"
  have "crc32_update_byte r 0 = crc32_update_byte (?hi XOR ?lo) (0 XOR 0)"
    using split_word [of r] by simp
  also have "\<dots> = crc32_update_byte ?hi 0 XOR crc32_update_byte ?lo 0"
    by (rule crc32_update_byte_xor)
  also have "crc32_update_byte ?hi 0 = drop_bit 8 ?hi"
    using loop_high [of 8 ?hi] by (simp add: crc32_update_byte_def take_bit_push_bit)
  also have "drop_bit 8 ?hi = drop_bit 8 r"
    by (rule bit_eqI) (auto simp add: bit_simps dest: bit_imp_le_length)
  also have "crc32_update_byte ?lo 0 = crc32_update_byte 0 (ucast r)"
    using loop_low [of 8 "ucast r :: u8"] by (simp add: crc32_update_byte_def)
  finally show ?thesis .
qed

lemma crc32_update_byte_table:
  "crc32_update_byte r b = drop_bit 8 r XOR crc32_table ! unat (ucast r XOR b)"
proof -
  have "unat (ucast r XOR b) < 0x100"
    using unsigned_less [of "ucast r XOR b", where 'a = nat] by simp
  then have "crc32_table ! unat (ucast r XOR b) = crc32_update_byte 0 (ucast r XOR b)"
    by (simp add: crc32_table_base)
  also have "\<dots> = crc32_update_byte 0 (ucast r) XOR crc32_update_byte 0 b"
    using crc32_update_byte_xor [of 0 0 "ucast r" b] by simp
  finally show ?thesis
    by (subst crc32_update_byte_split) (simp add: crc32_update_byte_shift xor.assoc)
qed

lemma fold_xor_init:
  "fold (\<lambda>k acc. acc XOR h k) ks (a XOR c) = fold (\<lambda>k acc. acc XOR h k) ks a XOR (c::u32)"
proof (induction ks arbitrary: a)
  case Nil
  show ?case by simp
next
  case (Cons k ks)
  have "(a XOR c) XOR h k = (a XOR h k) XOR c"
    by (simp add: xor.assoc xor.commute xor.left_commute)
  with Cons [of "a XOR h k"] show ?case by simp
qed

lemma fold_xor_zero_byte:
  "crc32_update_byte (fold (\<lambda>k acc. acc XOR h k) ks a) 0 =
   fold (\<lambda>k acc. acc XOR crc32_update_byte (h k) 0) ks (crc32_update_byte a 0)"
proof (induction ks arbitrary: a)
  case Nil
  show ?case by simp
next
  case (Cons k ks)
  have "crc32_update_byte (a XOR h k) 0 = crc32_update_byte a 0 XOR crc32_update_byte (h k) 0"
    using crc32_update_byte_xor [of a "h k" 0 0] by simp
  with Cons [of "a XOR h k"] show ?case by simp
qed

lemma crc32_table_byte:
  "k < 8 \<Longrightarrow> crc32_table ! (k * 0x100 + unat (x::u8)) = zero_bytes k (crc32_update_byte 0 x)"
proof -
  assume "k < 8"
  moreover have "unat x < 0x100"
    using unsigned_less [of x, where 'a = nat] by simp
  ultimately show ?thesis by (simp add: crc32_table_group)
qed

lemma slice_group_zero_bytes:
  assumes "N \<le> 8"
  shows "slice_group N r ds =
         fold (\<lambda>k acc. acc XOR
                 zero_bytes (N - 1 - k) (crc32_update_byte 0 (ucast (drop_bit (8 * k) r) XOR ds ! k)))
           [0..<N] (drop_bit (8 * N) r)"
  unfolding slice_group_def
proof (rule fold_cong [OF refl refl])
  fix k assume "k \<in> set [0..<N]"
  with assms have "N - 1 - k < 8" by simp
  then show "(\<lambda>acc. acc XOR slice_lookup N r ds k) =
        (\<lambda>acc. acc XOR zero_bytes (N - 1 - k)
                  (crc32_update_byte 0 (ucast (drop_bit (8 * k) r) XOR ds ! k)))"
    by (simp add: slice_lookup_def crc32_table_byte)
qed

lemma slice_sum_bytewise:
  "N \<le> length ds \<Longrightarrow>
   fold (\<lambda>k acc. acc XOR
           zero_bytes (N - 1 - k) (crc32_update_byte 0 (ucast (drop_bit (8 * k) r) XOR ds ! k)))
     [0..<N] (drop_bit (8 * N) r) =
   crc32_bytewise r (take N ds)"
proof (induction N)
  case 0
  show ?case by (simp add: crc32_bytewise_def)
next
  case (Suc N)
  let ?u = "\<lambda>k. crc32_update_byte 0 (ucast (drop_bit (8 * k) r) XOR ds ! k)"
  have ih: "fold (\<lambda>k acc. acc XOR zero_bytes (N - 1 - k) (?u k)) [0..<N] (drop_bit (8 * N) r) =
            crc32_bytewise r (take N ds)"
    using Suc by simp
  have step: "fold (\<lambda>k acc. acc XOR crc32_update_byte (zero_bytes (N - 1 - k) (?u k)) 0) [0..<N] a =
              fold (\<lambda>k acc. acc XOR zero_bytes (Suc N - 1 - k) (?u k)) [0..<N] a" for a
  proof (rule fold_cong [OF refl refl])
    fix k assume "k \<in> set [0..<N]"
    then have "Suc N - 1 - k = Suc (N - 1 - k)" by auto
    then show "(\<lambda>acc. acc XOR crc32_update_byte (zero_bytes (N - 1 - k) (?u k)) 0) =
               (\<lambda>acc. acc XOR zero_bytes (Suc N - 1 - k) (?u k))"
      by (simp add: zero_bytes_step)
  qed
  have shift: "crc32_update_byte (drop_bit (8 * N) r) 0 =
               drop_bit (8 * Suc N) r XOR crc32_update_byte 0 (ucast (drop_bit (8 * N) r))"
    by (subst crc32_update_byte_shift) (simp add: drop_bit_drop_bit add.commute)
  have u: "crc32_update_byte 0 (ucast (drop_bit (8 * N) r)) XOR crc32_update_byte 0 (ds ! N) = ?u N"
    using crc32_update_byte_xor [of 0 0 "ucast (drop_bit (8 * N) r)" "ds ! N"] by simp
  have "crc32_bytewise r (take (Suc N) ds) =
        crc32_update_byte (crc32_bytewise r (take N ds)) (ds ! N)"
    using Suc.prems by (simp add: take_Suc_conv_app_nth crc32_bytewise_def)
  also have "\<dots> = crc32_update_byte (crc32_bytewise r (take N ds)) 0 XOR crc32_update_byte 0 (ds ! N)"
    by (rule crc32_update_byte_split)
  also have "crc32_update_byte (crc32_bytewise r (take N ds)) 0 =
             fold (\<lambda>k acc. acc XOR zero_bytes (Suc N - 1 - k) (?u k)) [0..<N]
               (drop_bit (8 * Suc N) r XOR crc32_update_byte 0 (ucast (drop_bit (8 * N) r)))"
    by (simp only: ih [symmetric] fold_xor_zero_byte step shift)
  also have "\<dots> = fold (\<lambda>k acc. acc XOR zero_bytes (Suc N - 1 - k) (?u k)) [0..<N]
                     (drop_bit (8 * Suc N) r)
                   XOR crc32_update_byte 0 (ucast (drop_bit (8 * N) r))"
    by (rule fold_xor_init)
  finally have "crc32_bytewise r (take (Suc N) ds) =
      fold (\<lambda>k acc. acc XOR zero_bytes (Suc N - 1 - k) (?u k)) [0..<N] (drop_bit (8 * Suc N) r)
      XOR ?u N"
    by (simp only: xor.assoc u)
  then show ?case by simp
qed

lemma slice_group_bytewise:
  "N \<le> 8 \<Longrightarrow> N \<le> length ds \<Longrightarrow> slice_group N r ds = crc32_bytewise r (take N ds)"
  by (simp only: slice_group_zero_bytes slice_sum_bytewise)

lemma crc32_slice_bytewise:
  "N \<le> 8 \<Longrightarrow> crc32_slice N r data = crc32_bytewise r data"
proof (induction N r data rule: crc32_slice.induct)
  case (1 N r data)
  show ?case
  proof (cases "0 < N \<and> N \<le> length data")
    case True
    then have "crc32_slice N r data =
               crc32_slice N (slice_group N r (take N data)) (drop N data)"
      by (subst crc32_slice.simps) simp
    also have "\<dots> = crc32_bytewise (slice_group N r (take N data)) (drop N data)"
      using True 1 by simp
    also have "slice_group N r (take N data) = crc32_bytewise r (take N data)"
      using True 1(2) by (simp add: slice_group_bytewise)
    also have "crc32_bytewise (crc32_bytewise r (take N data)) (drop N data) =
               crc32_bytewise r (take N data @ drop N data)"
      by (rule crc32_bytewise_append [symmetric])
    finally show ?thesis by simp
  next
    case False
    then show ?thesis by (subst crc32_slice.simps) auto
  qed
qed

subsection \<open>Slice-by-4 and slice-by-8\<close>

text \<open>
  C2. For every byte sequence and every initial remainder, the slice-by-4 and the
  slice-by-8 computations over the generated table groups return the same 32-bit value
  as the byte-at-a-time loop.
\<close>

theorem slices_agree_with_bytewise:
  "crc32_slice4 remainder data = crc32_bytewise remainder data \<and>
   crc32_slice8 remainder data = crc32_bytewise remainder data"
  by (simp add: crc32_slice4_def crc32_slice8_def crc32_slice_bytewise)

section \<open>Properties of the duplicate-window scan\<close>

subsection \<open>Moving the window by one byte\<close>

lemma window_head:
  assumes "16 \<le> i" and "i < length str"
  shows "window str (i - 16) = str ! (i - 16) # take 15 (drop (i - 15) str)"
proof -
  from assms have "drop (i - 16) str = str ! (i - 16) # drop (Suc (i - 16)) str"
    by (intro Cons_nth_drop_Suc [symmetric]) simp
  moreover from assms have "Suc (i - 16) = i - 15" by simp
  ultimately show ?thesis
    by (simp add: window_def)
qed

lemma window_last:
  assumes "16 \<le> i" and "i < length str"
  shows "window str (i - 15) = take 15 (drop (i - 15) str) @ [str ! i]"
proof -
  from assms have "15 < length (drop (i - 15) str)" by simp
  then have "take (Suc 15) (drop (i - 15) str) =
             take 15 (drop (i - 15) str) @ [drop (i - 15) str ! 15]"
    by (rule take_Suc_conv_app_nth)
  moreover from assms have "drop (i - 15) str ! 15 = str ! i" by simp
  ultimately show ?thesis by (simp add: window_def)
qed

lemma roll_next_window:
  assumes "16 \<le> i" and "i < length str"
  shows "roll (crc32_bytewise 0 (window str (i - 16))) (str ! i) (str ! (i - 16)) =
         crc32_bytewise 0 (window str (i - 15))"
proof -
  from assms have "length (take 15 (drop (i - 15) str)) = 15" by simp
  then show ?thesis
    by (simp only: window_head [OF assms] window_last [OF assms] roll_window)
qed

subsection \<open>The candidates are the pairs of windows with equal checksums\<close>

lemma candidates_iff:
  "(x, y) \<in> set (candidates seen a r p) \<longleftrightarrow>
   y = p \<and> a \<le> x \<and> x - a < length seen \<and> seen ! (x - a) = r"
proof (induction seen arbitrary: a)
  case Nil
  show ?case by simp
next
  case (Cons h seen)
  have tail: "(x, y) \<in> set (candidates seen (a + 1) r p) \<longleftrightarrow>
              y = p \<and> a + 1 \<le> x \<and> x - (a + 1) < length seen \<and> seen ! (x - (a + 1)) = r"
    by (rule Cons.IH)
  show ?case
  proof (cases "x = a")
    case True
    then show ?thesis
      unfolding candidates.simps set_append tail Un_iff by auto
  next
    case False
    have "a + 1 \<le> x \<Longrightarrow> x - a = Suc (x - (a + 1))" by simp
    with False show ?thesis
      unfolding candidates.simps set_append tail Un_iff by auto
  qed
qed

lemma scan_windows_iff:
  assumes "outs = drop p str" and "incs = drop (p + 16) str"
    and "seen = map (\<lambda>q. crc32_bytewise 0 (window str q)) [0..<Suc p]"
    and "remainder = crc32_bytewise 0 (window str p)"
  shows "(a, b) \<in> set (scan_windows outs incs p remainder seen) \<longleftrightarrow>
         p < b \<and> b + 16 \<le> length str \<and> a < b \<and>
         crc32_bytewise 0 (window str a) = crc32_bytewise 0 (window str b)"
  using assms
proof (induction incs arbitrary: outs p seen remainder)
  case Nil
  then have "length str \<le> p + 16" by simp
  then show ?case
    by (cases outs) auto
next
  case (Cons incoming incs)
  let ?H = "\<lambda>q. crc32_bytewise 0 (window str q)"
  from Cons.prems(2) have len: "p + 16 < length str"
    by (metis drop_all list.distinct(1) not_le)
  from len have "drop (p + 16) str = str ! (p + 16) # drop (p + 1 + 16) str"
    using Cons_nth_drop_Suc [of "p + 16" str] by simp
  with Cons.prems(2) have inc: "incoming = str ! (p + 16)" and incs: "incs = drop (p + 1 + 16) str"
    by simp_all
  from Cons.prems(1) len have outs: "outs = str ! p # drop (p + 1) str"
    using Cons_nth_drop_Suc [of p str] by simp
  have r: "roll remainder incoming (str ! p) = ?H (p + 1)"
    using roll_next_window [of "p + 16" str] len by (simp add: Cons.prems(4) inc)
  have seen': "seen @ [?H (p + 1)] = map ?H [0..<Suc (p + 1)]"
    by (simp add: Cons.prems(3))
  have rest: "(a, b) \<in> set (scan_windows (drop (p + 1) str) incs (p + 1) (?H (p + 1))
                 (seen @ [?H (p + 1)])) \<longleftrightarrow>
              p + 1 < b \<and> b + 16 \<le> length str \<and> a < b \<and> ?H a = ?H b"
    by (rule Cons.IH [OF refl incs seen' refl])
  have cand: "(a, b) \<in> set (candidates seen 0 (?H (p + 1)) (p + 1)) \<longleftrightarrow>
              b = p + 1 \<and> a < b \<and> ?H a = ?H b"
    by (auto simp add: candidates_iff Cons.prems(3) nth_append simp del: upt_Suc)
  have "(a, b) \<in> set (scan_windows outs (incoming # incs) p remainder seen) \<longleftrightarrow>
        (a, b) \<in> set (candidates seen 0 (?H (p + 1)) (p + 1)) \<or>
        (a, b) \<in> set (scan_windows (drop (p + 1) str) incs (p + 1) (?H (p + 1))
           (seen @ [?H (p + 1)]))"
    by (simp add: outs r Let_def)
  also have "\<dots> \<longleftrightarrow> p < b \<and> b + 16 \<le> length str \<and> a < b \<and> ?H a = ?H b"
    unfolding rest cand using len by auto
  finally show ?case .
qed

text \<open>
  A pair of offsets is reported exactly when the first is the earlier one, both windows
  lie within the stream, and their checksums computed from remainder 0 are equal.
\<close>

lemma scan_iff:
  "(a, b) \<in> set (scan str) \<longleftrightarrow>
   a < b \<and> b + 16 \<le> length str \<and>
   crc32_bytewise 0 (window str a) = crc32_bytewise 0 (window str b)"
proof (cases "length str < 16")
  case True
  then show ?thesis by (simp add: scan_def)
next
  case False
  have "(a, b) \<in> set (scan_windows str (drop 16 str) 0 (crc32_bytewise 0 (window str 0))
           [crc32_bytewise 0 (window str 0)]) \<longleftrightarrow>
        0 < b \<and> b + 16 \<le> length str \<and> a < b \<and>
        crc32_bytewise 0 (window str a) = crc32_bytewise 0 (window str b)"
    by (rule scan_windows_iff) simp_all
  with False show ?thesis by (auto simp add: scan_def Let_def)
qed

subsection \<open>The stream of the scenario\<close>

lemma length_stream_ABA: "length stream_ABA = 48"
  by (simp add: stream_ABA_def)

lemma windows_stream_ABA:
  "window stream_ABA 0 = replicate 16 0x41"
  "window stream_ABA 16 = replicate 16 0x42"
  "window stream_ABA 32 = replicate 16 0x41"
  by (simp_all add: window_def stream_ABA_def)

text \<open>
  The windows at offsets 0 and 32 of the stream have the same checksum, and the window
  at offset 16 has a different one.
\<close>

lemma window_checksums_stream_ABA:
  "crc32_bytewise 0 (window stream_ABA 0) = 0x57BF1C5E"
  "crc32_bytewise 0 (window stream_ABA 16) = 0x4EE3BE39"
  "crc32_bytewise 0 (window stream_ABA 32) = 0x57BF1C5E"
  unfolding windows_stream_ABA sixteen_bytes
  by (simp_all add: crc32_bytewise_Nil crc32_bytewise_Cons crc32_eval)

text \<open>
  C7. On the stream of sixteen \<open>A\<close>, sixteen \<open>B\<close> and sixteen \<open>A\<close>, with windows of
  width 16, the scan reports the offsets \<open>(0, 32)\<close> as a candidate match, and it reports
  the window at offset 16 neither with the window at offset 0 nor with the window at
  offset 32: its checksum differs from theirs.
\<close>

theorem scan_stream_ABA:
  "(0, 32) \<in> set (scan stream_ABA) \<and>
   (0, 16) \<notin> set (scan stream_ABA) \<and>
   (16, 32) \<notin> set (scan stream_ABA) \<and>
   crc32_bytewise 0 (window stream_ABA 16) \<noteq> crc32_bytewise 0 (window stream_ABA 0) \<and>
   crc32_bytewise 0 (window stream_ABA 16) \<noteq> crc32_bytewise 0 (window stream_ABA 32)"
  by (simp add: scan_iff length_stream_ABA window_checksums_stream_ABA)

section \<open>Properties of \<^verbatim>\<open>parse_compression_level\<close>\<close>

lemma parse_compression_level_examples:
  "parse_compression_level 64 49 (Some [50]) = (12, [])"
  "parse_compression_level 64 49 (Some [51]) = (0, [Invalid_compression_level 49 [51]])"
  "parse_compression_level 64 54 None = (6, [])"
  "parse_compression_level 64 48 None = (0, [Invalid_compression_level 48 []])"
  "parse_compression_level 64 47 None = (0, [Invalid_compression_level 47 []])"
  "parse_compression_level 64 57 (Some [120]) = (0, [Invalid_compression_level 57 [120]])"
  by (simp_all add: parse_compression_level_def deref_def)

text \<open>
  C10. For every option character and every argument string (and every width of
  \<^verbatim>\<open>unsigned long\<close>), \<^verbatim>\<open>parse_compression_level\<close> either returns 0 after printing one
  error message, or prints nothing and returns an integer between 1 and 12.
\<close>

theorem parse_compression_level_range:
  "(\<exists>m. parse_compression_level w opt_char arg = (0, [m])) \<or>
   (\<exists>n. parse_compression_level w opt_char arg = (n, []) \<and> 1 \<le> n \<and> n \<le> 12)"
  by (auto simp add: parse_compression_level_def Let_def split: prod.splits)

theorem parse_compression_level_range_witness:
  "parse_compression_level 64 49 (Some [50]) = (12, []) \<and>
   parse_compression_level 64 49 (Some [51]) = (0, [Invalid_compression_level 49 [51]]) \<and>
   ((\<exists>m. parse_compression_level 64 49 (Some [50]) = (0, [m])) \<or>
    (\<exists>n. parse_compression_level 64 49 (Some [50]) = (n, []) \<and> 1 \<le> n \<and> n \<le> 12))"
  using parse_compression_level_range [of 64 49 "Some [50]"]
  by (simp add: parse_compression_level_examples)

end
